theory Spec2Isabelle
  imports Main
begin

section \<open>GroupedSelect: a grouped dropdown selector (src/components/common/GroupedSelect.tsx)\<close>

subsection \<open>Data model\<close>

text \<open>
  \<^verbatim>\<open>interface SelectOption { value: string; label: string; group?: string }\<close>.
  The optional field is \<open>None\<close> when it is undefined.
\<close>

record SelectOption =
  opt_value :: string
  opt_label :: string
  opt_group :: "string option"

text \<open>
  \<^verbatim>\<open>GroupedSelectProps\<close>. The callback \<open>onChange\<close> is not a field: its calls are
  recorded in the widget's state below. Optional props are \<open>None\<close> when undefined, and the
  destructuring defaults of the component are \<open>placeholder_of\<close>, \<open>disabled_of\<close>.
\<close>

record GroupedSelectProps =
  p_value :: string
  p_options :: "SelectOption list"
  p_placeholder :: "string option"
  p_className :: "string option"
  p_disabled :: "bool option"

definition placeholder_of :: "GroupedSelectProps \<Rightarrow> string" where
  "placeholder_of props = (case p_placeholder props of None \<Rightarrow> ''Select...'' | Some s \<Rightarrow> s)"

definition disabled_of :: "GroupedSelectProps \<Rightarrow> bool" where
  "disabled_of props = (case p_disabled props of None \<Rightarrow> False | Some b \<Rightarrow> b)"

subsection \<open>The accumulator of the grouping: a plain JavaScript object\<close>

text \<open>
  The accumulator of \<open>options.reduce\<close> is the object literal \<^verbatim>\<open>{}\<close>. Its own properties are
  kept in creation order; its prototype is \<open>Object.prototype\<close>, whose standard properties
  (ECMAScript 20.1.3 and B.2.2) are all truthy, and none of them is an array.
\<close>

datatype js_error = TypeError

type_synonym js_object = "(string \<times> SelectOption list) list"

definition Object_prototype_keys :: "string list" where
  "Object_prototype_keys =
     [''constructor'', ''hasOwnProperty'', ''isPrototypeOf'', ''propertyIsEnumerable'',
      ''toLocaleString'', ''toString'', ''valueOf'', ''__proto__'',
      ''__defineGetter__'', ''__defineSetter__'', ''__lookupGetter__'', ''__lookupSetter__'']"

text \<open>What a property read \<^verbatim>\<open>acc[group]\<close> gives: an own bucket, something inherited, or undefined.\<close>

datatype js_value = Undefined | Array "SelectOption list" | Inherited

definition get_prop :: "js_object \<Rightarrow> string \<Rightarrow> js_value" where
  "get_prop acc k =
     (case map_of acc k of
        Some xs \<Rightarrow> Array xs
      | None \<Rightarrow> if k \<in> set Object_prototype_keys then Inherited else Undefined)"

fun truthy :: "js_value \<Rightarrow> bool" where
  "truthy Undefined = False"
| "truthy (Array xs) = True"
| "truthy Inherited = True"

text \<open>Writing an own property: an existing one keeps its place, a new one is created last.\<close>

definition set_prop :: "js_object \<Rightarrow> string \<Rightarrow> SelectOption list \<Rightarrow> js_object" where
  "set_prop acc k xs =
     (if k \<in> fst ` set acc
      then map (\<lambda>(k', ys). if k' = k then (k', xs) else (k', ys)) acc
      else acc @ [(k, xs)])"

text \<open>
  A property key is an array index when it is the canonical decimal numeral of a number
  below \<open>2^32 - 1\<close>. \<open>Object.entries\<close> lists the own properties as
  \<open>OrdinaryOwnPropertyKeys\<close> orders them: array indices first, ascending, then the other
  string keys in creation order.
\<close>

definition is_digit :: "char \<Rightarrow> bool" where
  "is_digit c = (c \<in> set ''0123456789'')"

definition digit_value :: "char \<Rightarrow> nat" where
  "digit_value c = of_char c - of_char (CHR ''0'')"

definition decimal :: "string \<Rightarrow> nat" where
  "decimal s = foldl (\<lambda>n c. 10 * n + digit_value c) 0 s"

definition array_index :: "string \<Rightarrow> nat option" where
  "array_index s =
     (if s \<noteq> [] \<and> list_all is_digit s \<and> (s = ''0'' \<or> hd s \<noteq> CHR ''0'')
         \<and> decimal s < 4294967295
      then Some (decimal s) else None)"

definition index_key :: "string \<Rightarrow> nat" where
  "index_key s = (case array_index s of None \<Rightarrow> 0 | Some n \<Rightarrow> n)"

definition is_index :: "string \<Rightarrow> bool" where
  "is_index s = (array_index s \<noteq> None)"

definition Object_entries :: "js_object \<Rightarrow> (string \<times> SelectOption list) list" where
  "Object_entries obj =
     sort_key (\<lambda>(k, xs). index_key k) (filter (\<lambda>(k, xs). is_index k) obj)
     @ filter (\<lambda>(k, xs). \<not> is_index k) obj"

subsection \<open>groupedOptions (lines 32-39)\<close>

text \<open>\<^verbatim>\<open>option.group || 'Other'\<close>: undefined and the empty string are falsy.\<close>

definition group_name :: "SelectOption \<Rightarrow> string" where
  "group_name option =
     (case opt_group option of None \<Rightarrow> ''Other'' | Some g \<Rightarrow> if g = [] then ''Other'' else g)"

text \<open>
  The callback of the reduce. \<^verbatim>\<open>acc[group].push(option)\<close> throws a TypeError when
  \<^verbatim>\<open>acc[group]\<close> is not an array.
\<close>

definition reducer :: "js_object \<Rightarrow> SelectOption \<Rightarrow> js_error + js_object" where
  "reducer acc option =
     (let group = group_name option;
          acc1 = (if \<not> truthy (get_prop acc group) then set_prop acc group [] else acc)
      in case get_prop acc1 group of
           Array xs \<Rightarrow> Inr (set_prop acc1 group (xs @ [option]))
         | Undefined \<Rightarrow> Inl TypeError
         | Inherited \<Rightarrow> Inl TypeError)"

fun reduce :: "('b \<Rightarrow> 'a \<Rightarrow> js_error + 'b) \<Rightarrow> 'a list \<Rightarrow> 'b \<Rightarrow> js_error + 'b" where
  "reduce f [] acc = Inr acc"
| "reduce f (x # xs) acc = (case f acc x of Inl e \<Rightarrow> Inl e | Inr acc' \<Rightarrow> reduce f xs acc')"

definition groupedOptions :: "SelectOption list \<Rightarrow> js_error + js_object" where
  "groupedOptions options = reduce reducer options []"

text \<open>\<^verbatim>\<open>Object.entries(groupedOptions)\<close> (line 111): the blocks of the panel, in order.\<close>

definition panel_groups :: "SelectOption list \<Rightarrow> js_error + (string \<times> SelectOption list) list" where
  "panel_groups options =
     (case groupedOptions options of Inl e \<Rightarrow> Inl e | Inr obj \<Rightarrow> Inr (Object_entries obj))"

subsection \<open>selectedOption and selectedLabel (lines 42-43)\<close>

definition selectedOption :: "SelectOption list \<Rightarrow> string \<Rightarrow> SelectOption option" where
  "selectedOption options v = find (\<lambda>opt. opt_value opt = v) options"

text \<open>\<^verbatim>\<open>selectedOption?.label || placeholder\<close>: an empty label is falsy.\<close>

definition selectedLabel :: "SelectOption list \<Rightarrow> string \<Rightarrow> string \<Rightarrow> string" where
  "selectedLabel options v placeholder =
     (case selectedOption options v of
        None \<Rightarrow> placeholder
      | Some opt \<Rightarrow> if opt_label opt = [] then placeholder else opt_label opt)"

subsection \<open>What the grouping is meant to compute\<close>

text \<open>The distinct elements of a list, in the order of their first occurrence.\<close>

primrec first_seen :: "'a list \<Rightarrow> 'a list" where
  "first_seen [] = []"
| "first_seen (x # xs) = x # removeAll x (first_seen xs)"

definition buckets :: "SelectOption list \<Rightarrow> js_object" where
  "buckets options =
     map (\<lambda>g. (g, filter (\<lambda>opt. group_name opt = g) options))
       (first_seen (map group_name options))"

subsection \<open>The rendered tree (lines 67-145)\<close>

text \<open>
  What the JSX returns, without the styling: the trigger button with its label, its
  \<open>disabled\<close> attribute and the chevron, and the panel, which \<^verbatim>\<open>{isOpen && (...)}\<close> leaves
  out of the tree when \<open>isOpen\<close> is false. A row carries the argument its \<open>onClick\<close> passes
  to \<open>handleSelect\<close>.
\<close>

record option_row =
  row_value :: string
  row_label :: string
  row_selected :: bool

record group_block =
  block_header :: string
  block_rows :: "option_row list"

record render_tree =
  trigger_label :: string
  trigger_disabled :: bool
  chevron_rotated :: bool
  panel :: "group_block list option"

text \<open>The body of the function component: it throws when the grouping throws.\<close>

definition GroupedSelect :: "GroupedSelectProps \<Rightarrow> bool \<Rightarrow> js_error + render_tree" where
  "GroupedSelect props is_open =
     (case groupedOptions (p_options props) of
        Inl e \<Rightarrow> Inl e
      | Inr grouped \<Rightarrow>
          Inr \<lparr>trigger_label =
                 selectedLabel (p_options props) (p_value props) (placeholder_of props),
               trigger_disabled = disabled_of props,
               chevron_rotated = is_open,
               panel =
                 (if is_open
                  then Some (map (\<lambda>(group, groupOptions).
                         \<lparr>block_header = group,
                          block_rows = map (\<lambda>option.
                            \<lparr>row_value = opt_value option,
                             row_label = opt_label option,
                             row_selected = (opt_value option = p_value props)\<rparr>)
                            groupOptions\<rparr>)
                       (Object_entries grouped))
                  else None)\<rparr>)"

definition rows_of :: "render_tree \<Rightarrow> option_row list" where
  "rows_of tree = (case panel tree of None \<Rightarrow> [] | Some blocks \<Rightarrow> concat (map block_rows blocks))"

subsection \<open>The mounted component: state, effect and handlers\<close>

text \<open>
  \<open>isOpen\<close> is the \<open>useState\<close> cell as the last commit left it, which is the \<open>const\<close> the
  handlers of that render have captured; \<open>w_props\<close> are the props of that render, and
  \<open>containerRef\<close> says whether \<open>containerRef.current\<close> is
  the mounted element (rather than null). Every run of the effect creates a new closure
  \<open>handleClickOutside\<close>, named here by a fresh number; \<open>doc_listeners\<close> are the closures of
  this component registered for \<open>mousedown\<close> on the document, and \<open>effect_cleanup\<close> is the
  cleanup function React keeps from the last run of the effect, which removes the closure
  of that run. \<open>onChange_calls\<close> logs the arguments of the calls of \<open>onChange\<close>.
\<close>

record widget =
  w_props :: GroupedSelectProps
  isOpen :: bool
  containerRef :: bool
  effect_cleanup :: "nat option"
  next_handler :: nat
  doc_listeners :: "nat list"
  onChange_calls :: "string list"
  mounted :: bool

text \<open>The effect of lines 46-60, and the cleanup it returns.\<close>

definition run_effect :: "widget \<Rightarrow> widget" where
  "run_effect w =
     (let h = next_handler w
      in w\<lparr>doc_listeners := (if isOpen w then doc_listeners w @ [h] else doc_listeners w),
           effect_cleanup := Some h,
           next_handler := Suc h\<rparr>)"

definition run_cleanup :: "widget \<Rightarrow> widget" where
  "run_cleanup w =
     (case effect_cleanup w of
        None \<Rightarrow> w
      | Some h \<Rightarrow> w\<lparr>doc_listeners := removeAll h (doc_listeners w), effect_cleanup := None\<rparr>)"

text \<open>Unmounting runs the cleanup and detaches the ref.\<close>

definition unmount :: "widget \<Rightarrow> widget" where
  "unmount w = (run_cleanup w)\<lparr>mounted := False, containerRef := False\<rparr>"

text \<open>
  A render pass and its commit. A render that throws takes the component down; otherwise
  the effect is run again (after the previous cleanup) when its dependency \<open>[isOpen]\<close>
  differs from the one of the previous commit.
\<close>

definition rerender :: "bool \<Rightarrow> widget \<Rightarrow> widget" where
  "rerender dep w =
     (case GroupedSelect (w_props w) (isOpen w) of
        Inl e \<Rightarrow> unmount w
      | Inr tree \<Rightarrow> if isOpen w \<noteq> dep then run_effect (run_cleanup w) else w)"

text \<open>
  An event handler does not change the state it runs against. \<open>setIsOpen\<close> puts its argument
  into the update queue of the component, and React renders and commits only after the
  handlers of the event, or of a batch of events, have returned; until then every handler
  reads \<open>isOpen\<close> and the props of the last commit. The updates are values, not updater
  functions, so of the queued values the last one becomes the state.
\<close>

type_synonym queued = "bool option \<times> widget"

fun setIsOpen :: "bool \<Rightarrow> queued \<Rightarrow> queued" where
  "setIsOpen b (q, w) = (Some b, w)"

text \<open>
  Committing a new value of the state: the value the state already has gives no render;
  otherwise the component is rendered with it and the effect follows.
\<close>

definition commit :: "bool \<Rightarrow> widget \<Rightarrow> widget" where
  "commit b w = (if b = isOpen w then w else rerender (isOpen w) (w\<lparr>isOpen := b\<rparr>))"

fun flush :: "queued \<Rightarrow> widget" where
  "flush (None, w) = w"
| "flush (Some b, w) = commit b w"

text \<open>
  Mounting: the first render with \<^verbatim>\<open>useState(false)\<close>, then the ref is attached and the
  effect runs for the first time. Nothing is mounted when the first render throws.
\<close>

definition mount :: "GroupedSelectProps \<Rightarrow> widget" where
  "mount props =
     (let w = \<lparr>w_props = props, isOpen = False, containerRef = False, effect_cleanup = None,
               next_handler = 0, doc_listeners = [], onChange_calls = [], mounted = False\<rparr>
      in case GroupedSelect props False of
           Inl e \<Rightarrow> w
         | Inr tree \<Rightarrow> run_effect (w\<lparr>containerRef := True, mounted := True\<rparr>))"

datatype press_target = InsideWidget | OutsideWidget

text \<open>
  Lines 47-51. The target of the event is either inside the container
  (\<^verbatim>\<open>containerRef.current.contains(event.target)\<close>) or outside it.
\<close>

fun handleClickOutside :: "press_target \<Rightarrow> queued \<Rightarrow> queued" where
  "handleClickOutside target (q, w) =
     (if containerRef w \<and> target = OutsideWidget then setIsOpen False (q, w) else (q, w))"

text \<open>Lines 62-65: \<^verbatim>\<open>onChange(optionValue); setIsOpen(false);\<close>\<close>

fun handleSelect :: "string \<Rightarrow> queued \<Rightarrow> queued" where
  "handleSelect optionValue (q, w) =
     setIsOpen False (q, w\<lparr>onChange_calls := onChange_calls w @ [optionValue]\<rparr>)"

text \<open>
  Line 72: \<^verbatim>\<open>onClick={() => !disabled && setIsOpen(!isOpen)}\<close>. Both \<open>disabled\<close> and \<open>isOpen\<close>
  are the constants of the render that created the handler.
\<close>

fun trigger_onClick :: "queued \<Rightarrow> queued" where
  "trigger_onClick (q, w) =
     (if \<not> disabled_of (w_props w) then setIsOpen (\<not> isOpen w) (q, w) else (q, w))"

definition rendered_rows :: "widget \<Rightarrow> option_row list" where
  "rendered_rows w =
     (case GroupedSelect (w_props w) (isOpen w) of Inl e \<Rightarrow> [] | Inr tree \<Rightarrow> rows_of tree)"

text \<open>
  The events the mounted component reacts to: a click on the trigger, a click on an option
  row, a \<open>mousedown\<close> somewhere in the document; the parent may render the component again
  with new props, or remove it.
\<close>

datatype event =
    TriggerClick
  | OptionClick string
  | MouseDown press_target
  | Rerender GroupedSelectProps
  | Unmount

text \<open>
  The handlers an event runs, on the tree of the last commit. A click reaches the
  trigger's handler only when the rendered button does not carry the \<open>disabled\<close> attribute
  (line 73), and a row's handler only when the row is in the tree; a \<open>mousedown\<close> calls
  every listener registered on the document. The last two events run no handler.
\<close>

fun handle :: "event \<Rightarrow> queued \<Rightarrow> queued" where
  "handle TriggerClick (q, w) =
     (case GroupedSelect (w_props w) (isOpen w) of
        Inl e \<Rightarrow> (q, w)
      | Inr tree \<Rightarrow> if trigger_disabled tree then (q, w) else trigger_onClick (q, w))"
| "handle (OptionClick v) (q, w) =
     (if v \<in> row_value ` set (rendered_rows w) then handleSelect v (q, w) else (q, w))"
| "handle (MouseDown target) (q, w) =
     fold (\<lambda>h. handleClickOutside target) (doc_listeners w) (q, w)"
| "handle (Rerender props) (q, w) = (q, w)"
| "handle Unmount (q, w) = (q, w)"

text \<open>
  Several events handled before React commits: the handlers run one after the other
  against the same committed state, then the queue is flushed.
\<close>

definition batch :: "event list \<Rightarrow> widget \<Rightarrow> widget" where
  "batch es w = (if mounted w then flush (fold handle es (None, w)) else w)"

text \<open>
  One event followed by its commit, which is how React treats a click or a \<open>mousedown\<close>
  of the user: the queue is flushed when the handlers of the event have returned.
\<close>

fun dispatch :: "event \<Rightarrow> widget \<Rightarrow> widget" where
  "dispatch (Rerender props) w = rerender (isOpen w) (w\<lparr>w_props := props\<rparr>)"
| "dispatch Unmount w = unmount w"
| "dispatch e w = flush (handle e (None, w))"

definition step :: "event \<Rightarrow> widget \<Rightarrow> widget" where
  "step e w = (if mounted w then dispatch e w else w)"

definition run :: "event list \<Rightarrow> widget \<Rightarrow> widget" where
  "run es w = fold step es w"

text \<open>
  The invariant of the committed states: a mounted component has rendered, its ref is
  attached, and the document holds the closure of the last effect run when the panel is
  open and nothing otherwise; an unmounted one has left nothing behind.
\<close>

definition widget_inv :: "widget \<Rightarrow> bool" where
  "widget_inv w =
     (if mounted w
      then containerRef w \<and> \<not> isl (groupedOptions (p_options (w_props w)))
           \<and> (case effect_cleanup w of
                 None \<Rightarrow> False
               | Some h \<Rightarrow> doc_listeners w = (if isOpen w then [h] else []))
      else doc_listeners w = [])"

text \<open>The options and props of the first example scenario of the specification.\<close>

definition scenario_options :: "SelectOption list" where
  "scenario_options =
     [\<lparr>opt_value = ''a'', opt_label = ''Alpha'', opt_group = Some ''G1''\<rparr>,
      \<lparr>opt_value = ''b'', opt_label = ''Beta'', opt_group = Some ''G1''\<rparr>,
      \<lparr>opt_value = ''c'', opt_label = ''Gamma'', opt_group = None\<rparr>]"

definition scenario_props :: "GroupedSelectProps" where
  "scenario_props =
     \<lparr>p_value = ''c'', p_options = scenario_options, p_placeholder = None,
      p_className = None, p_disabled = None\<rparr>"

section \<open>Properties of the grouping\<close>

subsection \<open>The reduce computes the buckets, or throws\<close>

lemma set_first_seen [simp]: "set (first_seen xs) = set xs"
  by (induction xs) auto

lemma distinct_first_seen [simp]: "distinct (first_seen xs)"
  by (induction xs) (auto simp: distinct_removeAll)

lemma first_seen_snoc:
  "first_seen (xs @ [x]) = (if x \<in> set xs then first_seen xs else first_seen xs @ [x])"
  by (induction xs) auto

lemma reduce_snoc:
  "reduce f (xs @ [x]) acc = (case reduce f xs acc of Inl e \<Rightarrow> Inl e | Inr a \<Rightarrow> f a x)"
  by (induction xs arbitrary: acc) (auto split: sum.splits)

lemma map_of_graph:
  "map_of (map (\<lambda>k. (k, f k)) ks) g = (if g \<in> set ks then Some (f g) else None)"
  by (induction ks) auto

lemma keys_buckets: "fst ` set (buckets xs) = group_name ` set xs"
  by (auto simp: buckets_def image_iff)

lemma map_of_buckets:
  "map_of (buckets xs) g =
     (if g \<in> group_name ` set xs then Some (filter (\<lambda>opt. group_name opt = g) xs) else None)"
  by (simp add: buckets_def map_of_graph)

lemma buckets_snoc_new:
  assumes "group_name x \<notin> group_name ` set xs"
  shows "buckets (xs @ [x]) = buckets xs @ [(group_name x, [x])]"
proof -
  have "\<forall>opt\<in>set xs. group_name opt \<noteq> group_name x"
    using assms by (metis image_eqI)
  then have "filter (\<lambda>opt. group_name opt = group_name x) xs = []"
    by (simp add: filter_empty_conv)
  moreover have "map (\<lambda>g. (g, filter (\<lambda>opt. group_name opt = g) (xs @ [x])))
        (first_seen (map group_name xs)) = buckets xs"
    unfolding buckets_def using assms by (intro map_cong) auto
  ultimately show ?thesis
    using assms by (simp add: buckets_def first_seen_snoc)
qed

lemma buckets_snoc_old:
  assumes "group_name x \<in> group_name ` set xs"
  shows "buckets (xs @ [x]) =
     map (\<lambda>(k, ys). if k = group_name x
            then (k, filter (\<lambda>opt. group_name opt = group_name x) xs @ [x]) else (k, ys))
       (buckets xs)"
  using assms by (auto simp: buckets_def first_seen_snoc)

lemma js_error_eq [simp]: "(e::js_error) = TypeError"
  by (cases e) simp

lemma get_prop_buckets:
  "get_prop (buckets xs) g =
     (if g \<in> group_name ` set xs then Array (filter (\<lambda>opt. group_name opt = g) xs)
      else if g \<in> set Object_prototype_keys then Inherited else Undefined)"
  by (simp add: get_prop_def map_of_buckets)

lemma set_prop_new: "k \<notin> fst ` set acc \<Longrightarrow> set_prop acc k v = acc @ [(k, v)]"
  by (simp add: set_prop_def)

lemma get_prop_last: "k \<notin> fst ` set acc \<Longrightarrow> get_prop (acc @ [(k, v)]) k = Array v"
proof -
  assume "k \<notin> fst ` set acc"
  then have "map_of acc k = None"
    by (simp add: map_of_eq_None_iff)
  then show ?thesis
    by (simp add: get_prop_def map_add_def)
qed

lemma set_prop_last:
  "k \<notin> fst ` set acc \<Longrightarrow> set_prop (acc @ [(k, v)]) k v' = acc @ [(k, v')]"
proof -
  assume fresh: "k \<notin> fst ` set acc"
  have "map (\<lambda>(k', ys). if k' = k then (k', v') else (k', ys)) acc = acc"
  proof (rule map_idI)
    fix p assume "p \<in> set acc"
    with fresh have "fst p \<noteq> k" by (metis image_eqI)
    then show "(case p of (k', ys) \<Rightarrow> if k' = k then (k', v') else (k', ys)) = p"
      by (cases p) simp
  qed
  then show ?thesis
    by (simp add: set_prop_def)
qed

lemma reducer_buckets:
  "reducer (buckets xs) x =
     (if group_name x \<in> group_name ` set xs \<or> group_name x \<notin> set Object_prototype_keys
      then Inr (buckets (xs @ [x])) else Inl TypeError)"
proof (cases "group_name x \<in> group_name ` set xs")
  case True
  then show ?thesis
    by (simp add: reducer_def get_prop_buckets set_prop_def keys_buckets
        buckets_snoc_old Let_def)
next
  case False
  then have fresh: "group_name x \<notin> fst ` set (buckets xs)"
    by (simp add: keys_buckets)
  show ?thesis
  proof (cases "group_name x \<in> set Object_prototype_keys")
    case True
    with False show ?thesis
      by (simp add: reducer_def get_prop_buckets Let_def)
  next
    case notproto: False
    with False show ?thesis
      by (simp add: reducer_def get_prop_buckets Let_def set_prop_new [OF fresh]
          get_prop_last [OF fresh] set_prop_last [OF fresh] buckets_snoc_new)
  qed
qed

lemma groupedOptions_eq:
  "groupedOptions xs =
     (if \<exists>opt\<in>set xs. group_name opt \<in> set Object_prototype_keys
      then Inl TypeError else Inr (buckets xs))"
proof (induction xs rule: rev_induct)
  case Nil
  show ?case by (simp add: groupedOptions_def buckets_def)
next
  case (snoc x xs)
  then show ?case
    unfolding groupedOptions_def reduce_snoc
    by (auto simp: reducer_buckets)
qed

lemma insort_key_map:
  "insort_key f (h x) (map h ys) = map h (insort_key (\<lambda>a. f (h a)) x ys)"
  by (induction ys) auto

lemma sort_key_map: "sort_key f (map h xs) = map h (sort_key (\<lambda>a. f (h a)) xs)"
  by (induction xs) (auto simp: insort_key_map)

lemma set_Object_entries: "set (Object_entries obj) = set obj"
  by (auto simp: Object_entries_def)

lemma keys_Object_entries_buckets:
  "map fst (Object_entries (buckets xs)) =
     sort_key index_key (filter is_index (first_seen (map group_name xs)))
     @ filter (\<lambda>g. \<not> is_index g) (first_seen (map group_name xs))"
  by (simp add: Object_entries_def buckets_def filter_map sort_key_map o_def)

lemma filter_all: "\<forall>x\<in>set xs. P x \<Longrightarrow> filter P xs = xs"
  by (induction xs) auto

lemma filter_none: "\<forall>x\<in>set xs. \<not> P x \<Longrightarrow> filter P xs = []"
  by (induction xs) auto

lemma panel_groups_Inr:
  "panel_groups xs = Inr entries \<Longrightarrow> entries = Object_entries (buckets xs)"
  by (auto simp: panel_groups_def groupedOptions_eq split: if_splits)

text \<open>
  When no group name is a property of \<open>Object.prototype\<close>, the reduce returns the buckets:
  their names are distinct, and an option is in a bucket exactly when the bucket bears the
  option's group name.
\<close>

lemma groupedOptions_partition:
  assumes "\<forall>opt\<in>set options. group_name opt \<notin> set Object_prototype_keys"
  shows "groupedOptions options = Inr (buckets options)"
    and "distinct (map fst (buckets options))"
    and "opt \<in> set options \<Longrightarrow> (g, xs) \<in> set (buckets options) \<Longrightarrow>
           opt \<in> set xs \<longleftrightarrow> g = group_name opt"
  using assms by (auto simp: groupedOptions_eq buckets_def o_def distinct_map inj_on_def)

lemmas index_defs =
  array_index_def is_digit_def decimal_def digit_value_def is_index_def index_key_def

lemmas grouping_defs =
  groupedOptions_def reducer_def get_prop_def set_prop_def group_name_def
  Object_prototype_keys_def panel_groups_def Object_entries_def Let_def

subsection \<open>Order of the buckets\<close>

text \<open>
  C1 (as amended). Whenever the grouping completes, the blocks of the panel are: first
  the buckets whose name is an array index, in ascending numeric order, then the other
  buckets in the order in which their names were first seen in the option list. So when
  no group name is an array index, the buckets appear in first-seen order. In every case
  a bucket holds the options of its group in their original relative order.
\<close>

theorem panel_groups_order:
  "panel_groups options = Inr entries \<Longrightarrow>
     map fst entries =
       sort_key index_key (filter is_index (first_seen (map group_name options)))
       @ filter (\<lambda>g. \<not> is_index g) (first_seen (map group_name options))
     \<and> ((\<forall>opt\<in>set options. \<not> is_index (group_name opt)) \<longrightarrow>
          map fst entries = first_seen (map group_name options))
     \<and> (\<forall>(g, xs)\<in>set entries. xs = filter (\<lambda>opt. group_name opt = g) options)"
proof -
  assume "panel_groups options = Inr entries"
  then have entries: "entries = Object_entries (buckets options)"
    by (rule panel_groups_Inr)
  have order: "map fst entries =
       sort_key index_key (filter is_index (first_seen (map group_name options)))
       @ filter (\<lambda>g. \<not> is_index g) (first_seen (map group_name options))"
    by (simp add: entries keys_Object_entries_buckets)
  have plain: "map fst entries = first_seen (map group_name options)"
    if "\<forall>opt\<in>set options. \<not> is_index (group_name opt)"
  proof -
    from that have "\<forall>g\<in>set (first_seen (map group_name options)). \<not> is_index g"
      by simp
    then show ?thesis
      by (simp add: order filter_all filter_none)
  qed
  have inside: "\<forall>(g, xs)\<in>set entries. xs = filter (\<lambda>opt. group_name opt = g) options"
    by (auto simp: entries set_Object_entries buckets_def)
  from order plain inside show ?thesis by blast
qed

text \<open>
  The first example scenario: the grouping completes, no group name is an array index,
  and the blocks are \<open>G1\<close> (Alpha, Beta) then \<open>Other\<close> (Gamma).
\<close>

theorem panel_groups_order_witness:
  "panel_groups scenario_options =
     Inr [(''G1'', [\<lparr>opt_value = ''a'', opt_label = ''Alpha'', opt_group = Some ''G1''\<rparr>,
                    \<lparr>opt_value = ''b'', opt_label = ''Beta'', opt_group = Some ''G1''\<rparr>]),
          (''Other'', [\<lparr>opt_value = ''c'', opt_label = ''Gamma'', opt_group = None\<rparr>])]
   \<and> list_all (\<lambda>opt. \<not> is_index (group_name opt)) scenario_options
   \<and> first_seen (map group_name scenario_options) = [''G1'', ''Other'']"
proof -
  let ?entries =
    "[(''G1'', [\<lparr>opt_value = ''a'', opt_label = ''Alpha'', opt_group = Some ''G1''\<rparr>,
                \<lparr>opt_value = ''b'', opt_label = ''Beta'', opt_group = Some ''G1''\<rparr>]),
      (''Other'', [\<lparr>opt_value = ''c'', opt_label = ''Gamma'', opt_group = None\<rparr>])]"
  have run: "panel_groups scenario_options = Inr ?entries"
    by (simp add: scenario_options_def grouping_defs index_defs)
  have plain: "\<forall>opt\<in>set scenario_options. \<not> is_index (group_name opt)"
    by (simp add: scenario_options_def group_name_def index_defs)
  from panel_groups_order [OF run] plain
  have "map fst ?entries = first_seen (map group_name scenario_options)"
    by blast
  with run plain show ?thesis by (simp add: list_all_iff)
qed

text \<open>
  C1 as stated fails: with the group names \<open>b\<close> then \<open>1\<close>, the block of \<open>1\<close>, an array index,
  is listed before the block of \<open>b\<close>, which was seen first.
\<close>

theorem panel_groups_order_counterexample:
  "panel_groups [\<lparr>opt_value = ''x'', opt_label = ''X'', opt_group = Some ''b''\<rparr>,
                 \<lparr>opt_value = ''y'', opt_label = ''Y'', opt_group = Some ''1''\<rparr>]
     = Inr [(''1'', [\<lparr>opt_value = ''y'', opt_label = ''Y'', opt_group = Some ''1''\<rparr>]),
            (''b'', [\<lparr>opt_value = ''x'', opt_label = ''X'', opt_group = Some ''b''\<rparr>])]
   \<and> first_seen (map group_name
        [\<lparr>opt_value = ''x'', opt_label = ''X'', opt_group = Some ''b''\<rparr>,
         \<lparr>opt_value = ''y'', opt_label = ''Y'', opt_group = Some ''1''\<rparr>]) = [''b'', ''1'']"
  by (simp add: grouping_defs index_defs)

subsection \<open>Every option in one bucket\<close>

text \<open>
  C2. The grouping is to put every option into the bucket of its group name. On an option
  whose group is \<open>constructor\<close> it does not: \<^verbatim>\<open>acc[group]\<close> reads the inherited
  \<open>Object.prototype.constructor\<close>, which is truthy, so no bucket is created, and the call of
  \<open>push\<close> on it throws.
\<close>

theorem groupedOptions_prototype_key_throws:
  "groupedOptions [\<lparr>opt_value = ''a'', opt_label = ''A'', opt_group = Some ''constructor''\<rparr>]
     = Inl TypeError"
  by (simp add: grouping_defs)

section \<open>Properties of the trigger label\<close>


lemma isl_GroupedSelect:
  "isl (GroupedSelect props b) = isl (groupedOptions (p_options props))"
  by (simp add: GroupedSelect_def split: sum.splits)

lemma GroupedSelect_ok:
  "\<not> isl (groupedOptions (p_options props)) \<Longrightarrow> \<exists>tree. GroupedSelect props b = Inr tree"
  by (cases "groupedOptions (p_options props)") (auto simp: GroupedSelect_def)

lemma GroupedSelect_label:
  "GroupedSelect props is_open = Inr tree \<Longrightarrow>
     trigger_label tree =
       selectedLabel (p_options props) (p_value props) (placeholder_of props)"
  by (auto simp: GroupedSelect_def split: sum.splits)

lemma GroupedSelect_disabled:
  "GroupedSelect props is_open = Inr tree \<Longrightarrow> trigger_disabled tree = disabled_of props"
  by (auto simp: GroupedSelect_def split: sum.splits)

lemmas render_defs =
  GroupedSelect_def selectedLabel_def selectedOption_def placeholder_of_def disabled_of_def

text \<open>
  C6 (as amended). Whenever the render completes and no option's value equals the current
  value, the label of the rendered trigger is the placeholder text, which is \<open>Select...\<close>
  when the prop is absent, whatever the current value is. The label is then blank exactly
  when the caller passed the empty string as placeholder, and it reads as the current
  value exactly when the placeholder text does.
\<close>

theorem trigger_label_no_match:
  "GroupedSelect props is_open = Inr tree \<Longrightarrow>
   \<forall>opt\<in>set (p_options props). opt_value opt \<noteq> p_value props \<Longrightarrow>
     trigger_label tree = placeholder_of props
     \<and> (p_placeholder props = None \<longrightarrow> trigger_label tree = ''Select...'')
     \<and> (trigger_label tree = [] \<longleftrightarrow> p_placeholder props = Some [])
     \<and> (trigger_label tree = p_value props \<longleftrightarrow> placeholder_of props = p_value props)"
proof -
  assume tree: "GroupedSelect props is_open = Inr tree"
    and none: "\<forall>opt\<in>set (p_options props). opt_value opt \<noteq> p_value props"
  from none have "find (\<lambda>opt. opt_value opt = p_value props) (p_options props) = None"
    by (simp add: find_None_iff)
  then have "trigger_label tree = placeholder_of props"
    by (simp add: GroupedSelect_label [OF tree] selectedLabel_def selectedOption_def)
  then show ?thesis
    by (auto simp: placeholder_of_def split: option.splits)
qed

text \<open>
  The options of the example scenario with the current value \<open>zzz\<close>, which none of them
  has, and no placeholder prop: the trigger reads \<open>Select...\<close>.
\<close>

theorem trigger_label_no_match_witness:
  "GroupedSelect (scenario_props\<lparr>p_value := ''zzz''\<rparr>) False =
     Inr \<lparr>trigger_label = ''Select...'', trigger_disabled = False, chevron_rotated = False,
          panel = None\<rparr>
   \<and> list_all (\<lambda>opt. opt_value opt \<noteq> p_value (scenario_props\<lparr>p_value := ''zzz''\<rparr>))
        (p_options (scenario_props\<lparr>p_value := ''zzz''\<rparr>))
   \<and> p_placeholder (scenario_props\<lparr>p_value := ''zzz''\<rparr>) = None
   \<and> placeholder_of (scenario_props\<lparr>p_value := ''zzz''\<rparr>) = ''Select...''"
proof -
  let ?props = "scenario_props\<lparr>p_value := ''zzz''\<rparr>"
  let ?tree = "\<lparr>trigger_label = ''Select...'', trigger_disabled = False,
                chevron_rotated = False, panel = None\<rparr>"
  have tree: "GroupedSelect ?props False = Inr ?tree"
    by (simp add: render_defs scenario_props_def scenario_options_def grouping_defs)
  have none: "\<forall>opt\<in>set (p_options ?props). opt_value opt \<noteq> p_value ?props"
    by (simp add: scenario_props_def scenario_options_def)
  have absent: "p_placeholder ?props = None"
    by (simp add: scenario_props_def)
  from trigger_label_no_match [OF tree none] absent
  have "placeholder_of ?props = trigger_label ?tree"
    by simp
  with tree none absent show ?thesis
    by (simp add: list_all_iff)
qed

text \<open>
  C6 as stated fails: with an empty option list no option matches, and with the empty
  string passed as placeholder the rendered trigger is blank.
\<close>

theorem trigger_label_no_match_counterexample:
  "GroupedSelect \<lparr>p_value = ''c'', p_options = [], p_placeholder = Some [],
                  p_className = None, p_disabled = None\<rparr> False =
     Inr \<lparr>trigger_label = [], trigger_disabled = False, chevron_rotated = False,
          panel = None\<rparr>"
  by (simp add: render_defs groupedOptions_def)




section \<open>Properties of the mounted component\<close>

subsection \<open>The invariant holds in every reachable state\<close>

lemma widget_inv_mount: "widget_inv (mount props)"
  by (auto simp: mount_def widget_inv_def run_effect_def Let_def GroupedSelect_def
      split: sum.splits)

lemma widget_inv_unmount: "widget_inv w \<Longrightarrow> widget_inv (unmount w)"
  by (auto simp: widget_inv_def unmount_def run_cleanup_def split: option.splits if_splits)

lemma commit_effect:
  assumes "mounted w" "containerRef w" "\<not> isl (groupedOptions (p_options (w_props w)))"
    and "effect_cleanup w = Some h" "doc_listeners w = [] \<or> doc_listeners w = [h]"
  shows "widget_inv (run_effect (run_cleanup w))"
  using assms
  by (auto simp: widget_inv_def run_effect_def run_cleanup_def Let_def)

lemma widget_inv_commit:
  assumes "widget_inv w" "mounted w"
  shows "widget_inv (commit b w)"
proof (cases "b = isOpen w")
  case True
  with assms show ?thesis by (simp add: commit_def)
next
  case False
  from assms obtain h where h: "effect_cleanup w = Some h"
      "doc_listeners w = (if isOpen w then [h] else [])"
    and ok: "containerRef w" "\<not> isl (groupedOptions (p_options (w_props w)))"
    by (auto simp: widget_inv_def split: option.splits)
  from ok obtain tree where "GroupedSelect (w_props w) b = Inr tree"
    using GroupedSelect_ok by blast
  moreover have "widget_inv (run_effect (run_cleanup (w\<lparr>isOpen := b\<rparr>)))"
    using assms(2) ok h by (intro commit_effect [where h = h]) auto
  ultimately show ?thesis
    using False by (simp add: commit_def rerender_def)
qed

lemma commit_fields:
  assumes "mounted w" "\<not> isl (groupedOptions (p_options (w_props w)))"
  shows "isOpen (commit b w) = b" "mounted (commit b w)"
    "w_props (commit b w) = w_props w" "onChange_calls (commit b w) = onChange_calls w"
    "containerRef (commit b w) = containerRef w"
proof -
  from assms(2) obtain tree where "GroupedSelect (w_props w) b = Inr tree"
    using GroupedSelect_ok by blast
  then show "isOpen (commit b w) = b" "mounted (commit b w)"
    "w_props (commit b w) = w_props w" "onChange_calls (commit b w) = onChange_calls w"
    "containerRef (commit b w) = containerRef w"
    using assms(1)
    by (auto simp: commit_def rerender_def run_effect_def run_cleanup_def Let_def
        split: option.splits)
qed

lemma widget_inv_rerender_props:
  assumes "widget_inv w" "mounted w"
  shows "widget_inv (rerender (isOpen w) (w\<lparr>w_props := props\<rparr>))"
proof (cases "GroupedSelect props (isOpen w)")
  case (Inl e)
  have "widget_inv (unmount (w\<lparr>w_props := props\<rparr>))"
    using assms
    by (auto simp: widget_inv_def unmount_def run_cleanup_def split: option.splits if_splits)
  with Inl show ?thesis by (simp add: rerender_def)
next
  case (Inr tree)
  then have "\<not> isl (groupedOptions (p_options props))"
    using isl_GroupedSelect [of props "isOpen w"] by simp
  with assms have "widget_inv (w\<lparr>w_props := props\<rparr>)"
    by (auto simp: widget_inv_def split: option.splits)
  with Inr show ?thesis by (simp add: rerender_def)
qed

text \<open>A handler changes nothing of the committed state but the log of the calls.\<close>

lemma widget_inv_calls: "widget_inv (w\<lparr>onChange_calls := cs\<rparr>) = widget_inv w"
  by (auto simp: widget_inv_def split: option.splits)

lemma fold_handleClickOutside_frame:
  "\<exists>q'. fold (\<lambda>h. handleClickOutside target) hs (q, w) = (q', w)"
  by (induction hs arbitrary: q) auto

lemma handle_frame: "\<exists>q' cs. handle e (q, w) = (q', w\<lparr>onChange_calls := cs\<rparr>)"
proof (cases e)
  case TriggerClick
  have "\<exists>q'. handle TriggerClick (q, w) = (q', w)"
    by (auto split: sum.splits)
  then obtain q' where "handle TriggerClick (q, w) = (q', w\<lparr>onChange_calls := onChange_calls w\<rparr>)"
    by auto
  with TriggerClick show ?thesis by blast
next
  case (OptionClick v)
  have "handle (OptionClick v) (q, w) = (Some False, w\<lparr>onChange_calls := onChange_calls w @ [v]\<rparr>)
      \<or> handle (OptionClick v) (q, w) = (q, w\<lparr>onChange_calls := onChange_calls w\<rparr>)"
    by simp
  with OptionClick show ?thesis by blast
next
  case (MouseDown target)
  obtain q' where "handle (MouseDown target) (q, w) = (q', w\<lparr>onChange_calls := onChange_calls w\<rparr>)"
    using fold_handleClickOutside_frame [of target "doc_listeners w" q w] by auto
  with MouseDown show ?thesis by blast
next
  case (Rerender props)
  have "handle (Rerender props) (q, w) = (q, w\<lparr>onChange_calls := onChange_calls w\<rparr>)"
    by simp
  with Rerender show ?thesis by blast
next
  case Unmount
  have "handle Unmount (q, w) = (q, w\<lparr>onChange_calls := onChange_calls w\<rparr>)"
    by simp
  with Unmount show ?thesis by blast
qed

lemma fold_handle_frame: "\<exists>q' cs. fold handle es (q, w) = (q', w\<lparr>onChange_calls := cs\<rparr>)"
proof (induction es arbitrary: q w)
  case Nil
  have "fold handle [] (q, w) = (q, w\<lparr>onChange_calls := onChange_calls w\<rparr>)"
    by simp
  then show ?case by blast
next
  case (Cons e es)
  obtain q1 cs1 where "handle e (q, w) = (q1, w\<lparr>onChange_calls := cs1\<rparr>)"
    using handle_frame by blast
  moreover obtain q2 cs2 where
    "fold handle es (q1, w\<lparr>onChange_calls := cs1\<rparr>) = (q2, w\<lparr>onChange_calls := cs1, onChange_calls := cs2\<rparr>)"
    using Cons.IH by blast
  ultimately have "fold handle (e # es) (q, w) = (q2, w\<lparr>onChange_calls := cs2\<rparr>)"
    by simp
  then show ?case by blast
qed

lemma widget_inv_flush:
  assumes "widget_inv w" "mounted w"
  shows "widget_inv (flush (q, w\<lparr>onChange_calls := cs\<rparr>))"
proof (cases q)
  case None
  with assms show ?thesis by (simp add: widget_inv_calls)
next
  case (Some b)
  have "widget_inv (commit b (w\<lparr>onChange_calls := cs\<rparr>))"
    using assms by (intro widget_inv_commit) (simp_all add: widget_inv_calls)
  with Some show ?thesis by simp
qed

text \<open>The invariant survives a batch of events, and so each single event.\<close>

lemma widget_inv_batch: "widget_inv w \<Longrightarrow> widget_inv (batch es w)"
proof (cases "mounted w")
  case False
  then show "widget_inv w \<Longrightarrow> widget_inv (batch es w)" by (simp add: batch_def)
next
  case True
  assume inv: "widget_inv w"
  obtain q cs where "fold handle es (None, w) = (q, w\<lparr>onChange_calls := cs\<rparr>)"
    using fold_handle_frame by blast
  with inv True show "widget_inv (batch es w)"
    by (simp add: batch_def widget_inv_flush)
qed

lemma widget_inv_step: "widget_inv w \<Longrightarrow> widget_inv (step e w)"
proof (cases "mounted w")
  case False
  then show "widget_inv w \<Longrightarrow> widget_inv (step e w)" by (simp add: step_def)
next
  case True
  assume inv: "widget_inv w"
  have user: "widget_inv (flush (handle e (None, w)))"
  proof -
    obtain q cs where "handle e (None, w) = (q, w\<lparr>onChange_calls := cs\<rparr>)"
      using handle_frame by blast
    with inv True show ?thesis by (simp add: widget_inv_flush)
  qed
  show "widget_inv (step e w)"
  proof (cases e)
    case (Rerender props)
    with inv True show ?thesis by (simp add: step_def widget_inv_rerender_props)
  next
    case Unmount
    with inv True show ?thesis by (simp add: step_def widget_inv_unmount)
  qed (use user True in \<open>simp_all add: step_def\<close>)
qed

lemma widget_inv_run: "widget_inv w \<Longrightarrow> widget_inv (run es w)"
  unfolding run_def by (induction es arbitrary: w) (auto simp: widget_inv_step)

lemma widget_inv_reachable: "widget_inv (run es (mount props))"
  by (simp add: widget_inv_run widget_inv_mount)

lemma fold_handleClickOutside:
  assumes "widget_inv w" "mounted w"
  shows "fold (\<lambda>h. handleClickOutside target) (doc_listeners w) (q, w) =
           (if isOpen w \<and> target = OutsideWidget then (Some False, w) else (q, w))"
  using assms
  by (auto simp: widget_inv_def split: option.splits)

subsection \<open>The rows of the open panel\<close>

text \<open>When the panel is open, the values of its rows are the values of the options.\<close>

lemma groupedOptions_ok:
  "\<not> isl (groupedOptions options) \<Longrightarrow> groupedOptions options = Inr (buckets options)"
  by (auto simp: groupedOptions_eq split: if_splits)

lemma rows_of_buckets:
  "(\<Union>(g, xs)\<in>set (buckets options). set xs) = set options"
  by (auto simp: buckets_def)

lemma rendered_rows_values:
  assumes "isOpen w" "\<not> isl (groupedOptions (p_options (w_props w)))"
  shows "row_value ` set (rendered_rows w) = opt_value ` set (p_options (w_props w))"
proof -
  let ?opts = "p_options (w_props w)"
  have "row_value ` set (rendered_rows w) =
          (\<Union>(g, xs)\<in>set (buckets ?opts). opt_value ` set xs)"
    using assms
    by (auto simp: rendered_rows_def GroupedSelect_def groupedOptions_ok rows_of_def
        set_Object_entries image_iff split: prod.splits) force+
  also have "\<dots> = opt_value ` (\<Union>(g, xs)\<in>set (buckets ?opts). set xs)"
    by auto
  finally show ?thesis
    by (simp only: rows_of_buckets)
qed

lemma rendered_rows_ok:
  "v \<in> row_value ` set (rendered_rows w) \<Longrightarrow> \<not> isl (groupedOptions (p_options (w_props w)))"
  by (auto simp: rendered_rows_def GroupedSelect_def split: sum.splits)

subsection \<open>Selecting, dismissing, toggling\<close>

text \<open>
  C3. Activating a rendered option row with value \<open>v\<close> while the panel is open calls
  \<open>onChange\<close> exactly once, with \<open>v\<close> (the log of calls grows by \<open>[v]\<close>), and closes the
  panel; the props, and with them the selected value, the mounting and the ref stay as
  they were.
\<close>

theorem option_click_reports_and_closes:
  "mounted w \<Longrightarrow> isOpen w \<Longrightarrow> v \<in> row_value ` set (rendered_rows w) \<Longrightarrow>
     onChange_calls (step (OptionClick v) w) = onChange_calls w @ [v]
     \<and> \<not> isOpen (step (OptionClick v) w)
     \<and> mounted (step (OptionClick v) w)
     \<and> w_props (step (OptionClick v) w) = w_props w
     \<and> containerRef (step (OptionClick v) w) = containerRef w"
proof -
  assume m: "mounted w" and o: "isOpen w" and v: "v \<in> row_value ` set (rendered_rows w)"
  let ?w = "w\<lparr>onChange_calls := onChange_calls w @ [v]\<rparr>"
  from v have ok: "\<not> isl (groupedOptions (p_options (w_props ?w)))"
    by (simp add: rendered_rows_ok)
  have "step (OptionClick v) w = commit False ?w"
    using m v by (simp add: step_def)
  then show ?thesis
    using commit_fields [of ?w False] m ok by simp
qed

text \<open>
  C4. In every reachable state of a mounted component with the panel open, a
  \<open>mousedown\<close> whose target is outside the container closes the panel, and \<open>onChange\<close> is
  not called.
\<close>

theorem outside_press_closes:
  "w = run es (mount props) \<Longrightarrow> mounted w \<Longrightarrow> isOpen w \<Longrightarrow>
     \<not> isOpen (step (MouseDown OutsideWidget) w)
     \<and> onChange_calls (step (MouseDown OutsideWidget) w) = onChange_calls w"
proof -
  assume w: "w = run es (mount props)" and m: "mounted w" and o: "isOpen w"
  from w have inv: "widget_inv w"
    by (simp add: widget_inv_reachable)
  then have ok: "\<not> isl (groupedOptions (p_options (w_props w)))"
    using m by (simp add: widget_inv_def)
  have "step (MouseDown OutsideWidget) w = commit False w"
    using inv m o by (simp add: step_def fold_handleClickOutside)
  then show ?thesis
    using commit_fields [of w False] m ok by simp
qed

lemma disabled_handle:
  "disabled_of (w_props w) \<Longrightarrow> handle TriggerClick (q, w) = (q, w)"
  by (auto simp: GroupedSelect_def split: sum.splits)

lemma disabled_step: "disabled_of (w_props w) \<Longrightarrow> step TriggerClick w = w"
  by (simp add: step_def disabled_handle del: handle.simps)

lemma disabled_run: "disabled_of (w_props w) \<Longrightarrow> run (replicate n TriggerClick) w = w"
  unfolding run_def by (induction n) (simp_all add: disabled_step)

text \<open>
  C5 (as amended). While \<open>disabled\<close> is true, the rendered trigger carries the \<open>disabled\<close>
  attribute and its handler does nothing, so any number of trigger activations, each
  with its own commit or all in one batch, leaves the whole state as it is: the
  visibility does not change, whether the panel is closed or was open when the flag
  became true, and \<open>onChange\<close> is not called.
\<close>

theorem disabled_trigger_inert:
  "disabled_of (w_props w) \<Longrightarrow>
     run (replicate n TriggerClick) w = w
     \<and> batch (replicate n TriggerClick) w = w
     \<and> isOpen (run (replicate n TriggerClick) w) = isOpen w
     \<and> onChange_calls (run (replicate n TriggerClick) w) = onChange_calls w
     \<and> trigger_onClick (q, w) = (q, w)
     \<and> (\<forall>tree. GroupedSelect (w_props w) (isOpen w) = Inr tree \<longrightarrow> trigger_disabled tree)"
proof -
  assume d: "disabled_of (w_props w)"
  have attr: "\<forall>tree. GroupedSelect (w_props w) (isOpen w) = Inr tree \<longrightarrow> trigger_disabled tree"
    using d by (auto simp: GroupedSelect_def split: sum.splits)
  have one: "run (replicate n TriggerClick) w = w"
    using d by (rule disabled_run)
  have "fold handle (replicate n TriggerClick) (None, w) = (None, w)"
    using d by (induction n) (simp_all add: disabled_handle del: handle.simps)
  then have all: "batch (replicate n TriggerClick) w = w"
    by (simp add: batch_def)
  from d have "trigger_onClick (q, w) = (q, w)"
    by simp
  with one all attr show ?thesis by simp
qed

text \<open>
  C7. Whenever \<open>isOpen\<close> is false, the rendered tree has no panel and no option row, and
  the activation of an option row is not an event that changes anything.
\<close>

theorem closed_panel_absent:
  "\<not> isOpen w \<Longrightarrow>
     rendered_rows w = []
     \<and> (\<forall>tree. GroupedSelect (w_props w) (isOpen w) = Inr tree \<longrightarrow> panel tree = None)
     \<and> step (OptionClick v) w = w"
  by (auto simp: rendered_rows_def GroupedSelect_def rows_of_def step_def split: sum.splits)

text \<open>
  C8. In every reachable state, a \<open>mousedown\<close> listener of the component is registered on
  the document exactly when the component is mounted with the panel open, and at most one
  is registered: none is left behind by a closed or unmounted component, however many
  times the panel was opened and closed.
\<close>

theorem listener_lockstep:
  "w = run es (mount props) \<Longrightarrow>
     (doc_listeners w \<noteq> []) = (mounted w \<and> isOpen w) \<and> length (doc_listeners w) \<le> 1"
proof -
  assume "w = run es (mount props)"
  then have "widget_inv w"
    by (simp add: widget_inv_reachable)
  then show ?thesis
    by (auto simp: widget_inv_def split: if_splits option.splits)
qed

text \<open>
  C9 (as amended). The panel is closed at mount. In every reachable state of a mounted
  component that is not disabled, a trigger activation followed by its commit flips
  \<open>isOpen\<close>, so two activations with a commit after each give back the value it had; two
  activations handled in one batch, before any commit, both set the negation of the same
  rendered value and flip it once.
\<close>

theorem trigger_toggles:
  "w = run es (mount props) \<Longrightarrow> mounted w \<Longrightarrow> \<not> disabled_of (w_props w) \<Longrightarrow>
     \<not> isOpen (mount props)
     \<and> step TriggerClick w = batch [TriggerClick] w
     \<and> isOpen (batch [TriggerClick] w) = (\<not> isOpen w)
     \<and> isOpen (batch [TriggerClick] (batch [TriggerClick] w)) = isOpen w
     \<and> isOpen (batch [TriggerClick, TriggerClick] w) = (\<not> isOpen w)"
proof -
  assume w: "w = run es (mount props)" and m: "mounted w" and d: "\<not> disabled_of (w_props w)"
  from w have "widget_inv w"
    by (simp add: widget_inv_reachable)
  then have ok: "\<not> isl (groupedOptions (p_options (w_props w)))"
    using m by (simp add: widget_inv_def)
  have init: "\<not> isOpen (mount props)"
    by (simp add: mount_def run_effect_def Let_def split: sum.splits)
  have click: "handle TriggerClick (q, w') = (Some (\<not> isOpen w'), w')"
    if "\<not> isl (groupedOptions (p_options (w_props w')))" and "\<not> disabled_of (w_props w')"
    for q w'
  proof -
    from that(1) obtain tree where tree: "GroupedSelect (w_props w') (isOpen w') = Inr tree"
      using GroupedSelect_ok by blast
    then have "\<not> trigger_disabled tree"
      using that(2) by (auto simp: GroupedSelect_def split: sum.splits)
    with tree that(2) show ?thesis by simp
  qed
  let ?w1 = "commit (\<not> isOpen w) w"
  have same: "step TriggerClick w = batch [TriggerClick] w"
    using m by (simp add: step_def batch_def)
  have one: "batch [TriggerClick] w = ?w1"
    using m click [OF ok d] by (simp add: batch_def)
  have f1: "isOpen ?w1 = (\<not> isOpen w)" "mounted ?w1" "w_props ?w1 = w_props w"
    using commit_fields [of w "\<not> isOpen w"] m ok by simp_all
  then have two: "batch [TriggerClick] ?w1 = commit (isOpen w) ?w1"
    using click [of ?w1] ok d by (simp add: batch_def)
  have restored: "isOpen (commit (isOpen w) ?w1) = isOpen w"
    using commit_fields(1) [of ?w1 "isOpen w"] f1 ok by simp
  have both: "batch [TriggerClick, TriggerClick] w = ?w1"
    using m click [OF ok d] by (simp add: batch_def)
  from init same one two restored both f1 show ?thesis by simp
qed

subsection \<open>The example scenario, run\<close>

lemma scenario_grouped: "\<not> isl (groupedOptions (p_options scenario_props))"
  by (simp add: scenario_props_def scenario_options_def grouping_defs)

lemma scenario_enabled: "\<not> disabled_of scenario_props"
  by (simp add: scenario_props_def disabled_of_def)

lemma scenario_render:
  "GroupedSelect scenario_props False =
     Inr \<lparr>trigger_label = ''Gamma'', trigger_disabled = False, chevron_rotated = False,
          panel = None\<rparr>"
  by (simp add: render_defs scenario_props_def scenario_options_def grouping_defs)

lemma scenario_mounted:
  "mount scenario_props =
     \<lparr>w_props = scenario_props, isOpen = False, containerRef = True, effect_cleanup = Some 0,
      next_handler = Suc 0, doc_listeners = [], onChange_calls = [], mounted = True\<rparr>"
  by (simp add: mount_def scenario_render run_effect_def)

lemma scenario_opened:
  "run [TriggerClick] (mount scenario_props) =
     \<lparr>w_props = scenario_props, isOpen = True, containerRef = True,
      effect_cleanup = Some (Suc 0), next_handler = Suc (Suc 0), doc_listeners = [Suc 0],
      onChange_calls = [], mounted = True\<rparr>"
proof -
  obtain tree where "GroupedSelect scenario_props True = Inr tree"
    using GroupedSelect_ok [OF scenario_grouped] by blast
  then show ?thesis
    by (simp add: run_def step_def scenario_mounted scenario_render scenario_enabled
        commit_def rerender_def run_effect_def run_cleanup_def)
qed

lemma scenario_disabled_while_open:
  "run [TriggerClick, Rerender (scenario_props\<lparr>p_disabled := Some True\<rparr>)] (mount scenario_props) =
     \<lparr>w_props = scenario_props\<lparr>p_disabled := Some True\<rparr>, isOpen = True, containerRef = True,
      effect_cleanup = Some (Suc 0), next_handler = Suc (Suc 0), doc_listeners = [Suc 0],
      onChange_calls = [], mounted = True\<rparr>"
proof -
  have "\<not> isl (groupedOptions (p_options (scenario_props\<lparr>p_disabled := Some True\<rparr>)))"
    using scenario_grouped by simp
  then obtain tree where
    "GroupedSelect (scenario_props\<lparr>p_disabled := Some True\<rparr>) True = Inr tree"
    using GroupedSelect_ok by blast
  moreover have "run [TriggerClick, Rerender (scenario_props\<lparr>p_disabled := Some True\<rparr>)]
        (mount scenario_props) =
      step (Rerender (scenario_props\<lparr>p_disabled := Some True\<rparr>))
        (run [TriggerClick] (mount scenario_props))"
    by (simp add: run_def)
  ultimately show ?thesis
    by (simp add: scenario_opened step_def rerender_def)
qed

text \<open>Scenario 4: the open panel, a click on the row of Beta.\<close>

theorem option_click_reports_and_closes_witness:
  "mounted (run [TriggerClick] (mount scenario_props))
   \<and> isOpen (run [TriggerClick] (mount scenario_props))
   \<and> ''b'' \<in> row_value ` set (rendered_rows (run [TriggerClick] (mount scenario_props)))
   \<and> onChange_calls (step (OptionClick ''b'') (run [TriggerClick] (mount scenario_props)))
       = [''b'']
   \<and> \<not> isOpen (step (OptionClick ''b'') (run [TriggerClick] (mount scenario_props)))"
proof -
  let ?w = "run [TriggerClick] (mount scenario_props)"
  have m: "mounted ?w" and o: "isOpen ?w" and c: "onChange_calls ?w = []"
    and p: "w_props ?w = scenario_props"
    by (simp_all add: scenario_opened)
  have "row_value ` set (rendered_rows ?w) = opt_value ` set (p_options (w_props ?w))"
    using o scenario_grouped p by (intro rendered_rows_values) simp_all
  moreover have "''b'' \<in> opt_value ` set (p_options scenario_props)"
    by (simp add: scenario_props_def scenario_options_def)
  ultimately have v: "''b'' \<in> row_value ` set (rendered_rows ?w)"
    by (simp only: p)
  from option_click_reports_and_closes [OF m o v] m o v c show ?thesis
    by simp
qed

text \<open>Scenario 5: the open panel, a press outside the widget.\<close>

theorem outside_press_closes_witness:
  "mounted (run [TriggerClick] (mount scenario_props))
   \<and> isOpen (run [TriggerClick] (mount scenario_props))
   \<and> \<not> isOpen (step (MouseDown OutsideWidget) (run [TriggerClick] (mount scenario_props)))
   \<and> onChange_calls (step (MouseDown OutsideWidget) (run [TriggerClick] (mount scenario_props)))
       = []"
proof -
  let ?w = "run [TriggerClick] (mount scenario_props)"
  have m: "mounted ?w" and o: "isOpen ?w" and c: "onChange_calls ?w = []"
    by (simp_all add: scenario_opened)
  from outside_press_closes [OF refl m o] m o c show ?thesis
    by simp
qed

text \<open>
  Scenario 3: mounted disabled, the trigger is rendered with the \<open>disabled\<close> attribute, and
  three clicks on it leave the panel closed.
\<close>

theorem disabled_trigger_inert_witness:
  "disabled_of (w_props (mount (scenario_props\<lparr>p_disabled := Some True\<rparr>)))
   \<and> GroupedSelect (w_props (mount (scenario_props\<lparr>p_disabled := Some True\<rparr>)))
        (isOpen (mount (scenario_props\<lparr>p_disabled := Some True\<rparr>))) =
       Inr \<lparr>trigger_label = ''Gamma'', trigger_disabled = True, chevron_rotated = False,
            panel = None\<rparr>
   \<and> \<not> isOpen (mount (scenario_props\<lparr>p_disabled := Some True\<rparr>))
   \<and> run (replicate 3 TriggerClick) (mount (scenario_props\<lparr>p_disabled := Some True\<rparr>))
       = mount (scenario_props\<lparr>p_disabled := Some True\<rparr>)
   \<and> batch (replicate 3 TriggerClick) (mount (scenario_props\<lparr>p_disabled := Some True\<rparr>))
       = mount (scenario_props\<lparr>p_disabled := Some True\<rparr>)"
proof -
  let ?props = "scenario_props\<lparr>p_disabled := Some True\<rparr>"
  have p: "w_props (mount ?props) = ?props" and closed: "\<not> isOpen (mount ?props)"
    by (simp_all add: mount_def run_effect_def Let_def split: sum.splits)
  then have d: "disabled_of (w_props (mount ?props))"
    by (simp add: disabled_of_def)
  have "GroupedSelect ?props False =
       Inr \<lparr>trigger_label = ''Gamma'', trigger_disabled = True, chevron_rotated = False,
            panel = None\<rparr>"
    by (simp add: render_defs scenario_props_def scenario_options_def grouping_defs)
  with p closed have tree: "GroupedSelect (w_props (mount ?props)) (isOpen (mount ?props)) =
       Inr \<lparr>trigger_label = ''Gamma'', trigger_disabled = True, chevron_rotated = False,
            panel = None\<rparr>"
    by simp
  from disabled_trigger_inert [OF d, of 3] d closed tree show ?thesis
    by simp
qed

text \<open>
  C5 as stated fails: the panel is opened, then the parent renders the component with
  \<open>disabled\<close> true. The flag is true, and after three trigger activations the panel is not
  closed: it is open, as it was.
\<close>

theorem disabled_trigger_inert_counterexample:
  "disabled_of (w_props (run [TriggerClick, Rerender (scenario_props\<lparr>p_disabled := Some True\<rparr>)]
       (mount scenario_props)))
   \<and> mounted (run [TriggerClick, Rerender (scenario_props\<lparr>p_disabled := Some True\<rparr>)]
       (mount scenario_props))
   \<and> isOpen (run (replicate 3 TriggerClick)
       (run [TriggerClick, Rerender (scenario_props\<lparr>p_disabled := Some True\<rparr>)]
          (mount scenario_props)))"
proof -
  let ?w = "run [TriggerClick, Rerender (scenario_props\<lparr>p_disabled := Some True\<rparr>)]
       (mount scenario_props)"
  have d: "disabled_of (w_props ?w)" and m: "mounted ?w" and o: "isOpen ?w"
    by (simp_all add: scenario_disabled_while_open disabled_of_def)
  from d have "run (replicate 3 TriggerClick) ?w = ?w"
    by (rule disabled_run)
  with d m o show ?thesis by simp
qed

text \<open>The component as mounted: closed, and rendered without a panel.\<close>

theorem closed_panel_absent_witness:
  "\<not> isOpen (mount scenario_props)
   \<and> GroupedSelect (w_props (mount scenario_props)) (isOpen (mount scenario_props)) =
       Inr \<lparr>trigger_label = ''Gamma'', trigger_disabled = False, chevron_rotated = False,
            panel = None\<rparr>
   \<and> rendered_rows (mount scenario_props) = []
   \<and> step (OptionClick ''a'') (mount scenario_props) = mount scenario_props"
proof -
  have closed: "\<not> isOpen (mount scenario_props)"
    by (simp add: scenario_mounted)
  have tree: "GroupedSelect (w_props (mount scenario_props)) (isOpen (mount scenario_props)) =
       Inr \<lparr>trigger_label = ''Gamma'', trigger_disabled = False, chevron_rotated = False,
            panel = None\<rparr>"
    by (simp add: scenario_mounted scenario_render)
  from closed_panel_absent [OF closed, of "''a''"] closed tree show ?thesis
    by simp
qed

text \<open>After three clicks on the trigger the panel is open, with one listener.\<close>

theorem listener_lockstep_witness:
  "mounted (run [TriggerClick, TriggerClick, TriggerClick] (mount scenario_props))
   \<and> isOpen (run [TriggerClick, TriggerClick, TriggerClick] (mount scenario_props))
   \<and> doc_listeners (run [TriggerClick, TriggerClick, TriggerClick] (mount scenario_props)) \<noteq> []
   \<and> length (doc_listeners (run [TriggerClick, TriggerClick, TriggerClick] (mount scenario_props)))
       \<le> 1"
proof -
  let ?w = "run [TriggerClick, TriggerClick, TriggerClick] (mount scenario_props)"
  obtain t1 where t1: "GroupedSelect scenario_props True = Inr t1"
    using GroupedSelect_ok [OF scenario_grouped] by blast
  then have "\<not> trigger_disabled t1"
    by (simp add: GroupedSelect_disabled scenario_enabled)
  with t1 have m: "mounted ?w" and o: "isOpen ?w"
    by (simp_all add: run_def step_def scenario_mounted scenario_render scenario_enabled
        commit_def rerender_def run_effect_def run_cleanup_def)
  from listener_lockstep [OF refl, of "[TriggerClick, TriggerClick, TriggerClick]" scenario_props]
    m o show ?thesis
    by simp
qed

text \<open>
  The component as mounted: one click and its commit open the panel, a second click and
  its commit close it; two clicks in one batch leave it open.
\<close>

theorem trigger_toggles_witness:
  "mounted (run [] (mount scenario_props))
   \<and> \<not> disabled_of (w_props (run [] (mount scenario_props)))
   \<and> \<not> isOpen (run [] (mount scenario_props))
   \<and> isOpen (batch [TriggerClick] (run [] (mount scenario_props)))
   \<and> \<not> isOpen (batch [TriggerClick] (batch [TriggerClick] (run [] (mount scenario_props))))
   \<and> isOpen (batch [TriggerClick, TriggerClick] (run [] (mount scenario_props)))"
proof -
  let ?w = "run [] (mount scenario_props)"
  have m: "mounted ?w" and d: "\<not> disabled_of (w_props ?w)" and c: "\<not> isOpen ?w"
    by (simp_all add: run_def scenario_mounted scenario_enabled)
  from trigger_toggles [OF refl m d] m d c show ?thesis
    by simp
qed

text \<open>
  C9 as stated fails: from the closed panel of the mounted component, two consecutive
  trigger activations that are handled before a commit leave the panel open.
\<close>

theorem trigger_toggles_counterexample:
  "mounted (mount scenario_props)
   \<and> \<not> disabled_of (w_props (mount scenario_props))
   \<and> \<not> isOpen (mount scenario_props)
   \<and> isOpen (batch [TriggerClick, TriggerClick] (mount scenario_props))"
proof -
  obtain tree where "GroupedSelect scenario_props True = Inr tree"
    using GroupedSelect_ok [OF scenario_grouped] by blast
  then show ?thesis
    by (simp add: batch_def scenario_mounted scenario_render scenario_enabled
        commit_def rerender_def run_effect_def run_cleanup_def)
qed

end
